theory Spec2Isabelle
  imports Main "HOL-Library.Multiset" "HOL-Library.Sublist"
begin

section \<open>Shared data: errors, HTTP, the remote library, events\<close>

text \<open>
  The program is the package \<open>gphotos\<close> (\<open>uploader.go\<close>) and its command (\<open>main\<close>, with \<open>run\<close> and
  \<open>uploadFile\<close>). Everything the code does to the outside (opening a file, an HTTP round trip, the
  remote \<open>BatchCreate\<close> call, a channel operation) is appended as an \<open>event\<close> to a trace, and the
  outcome of each such operation is read from an environment \<open>env\<close> at the current time, which is the
  length of the trace. A Go function returning \<open>(value, error)\<close> is a pair whose second component
  is \<open>None\<close> for \<open>nil\<close>.
\<close>

type_synonym UploadToken = string

text \<open>
  Go's \<open>error\<close> values: \<open>Failure\<close> is an error raised by a collaborator (the operating system,
  \<open>net/http\<close>, the remote service), named by its message; \<open>TooManyTokens got limit\<close> is the
  \<open>fmt.Errorf\<close> of \<open>CreateMediaItems\<close>; \<open>Canceled\<close> is \<open>ctx.Err()\<close>; \<open>UploadingFile f e\<close> is
  \<open>errors.Wrapf(e, "error uploading %q", f)\<close>; \<open>FailedToUploadPhotos e\<close> is
  \<open>errors.Wrap(e, "failed to upload photos")\<close>.
\<close>

datatype error =
    Failure string
  | TooManyTokens nat nat
  | Canceled
  | UploadingFile string error
  | FailedToUploadPhotos error

record request =
  http_method :: string
  url :: string
  headers :: "(string \<times> string) list"
  body :: string

text \<open>A response: its status code and what \<open>ioutil.ReadAll(resp.Body)\<close> returns.\<close>

record response =
  status :: nat
  read_all :: "string \<times> error option"

record SimpleMediaItem =
  UploadToken :: string

record NewMediaItem =
  SimpleMediaItem :: SimpleMediaItem

record BatchCreateMediaItemsRequest =
  NewMediaItems :: "NewMediaItem list"

text \<open>The progress strings: \<open>"uploaded %q"\<close> of a file name and \<open>"uploaded batch of %v photos"\<close>.\<close>

datatype message = Uploaded string | UploadedBatch nat

datatype event =
    OsOpen string "error option"
  | FileClosed string
  | HttpDo request "error option"
  | BodyClosed
  | BatchCreate BatchCreateMediaItemsRequest "error option"
  | FilenameSent string
  | FilenamesClosed
  | TokenSent UploadToken
  | TokenReceived UploadToken
  | TokensClosed
  | Flush "UploadToken list"
  | MessageSent message
  | CtxDone

text \<open>
  The environment. \<open>retries\<close> is the Retry Wrapper's budget of re-invocations. \<open>os_open t f\<close> is
  what \<open>os.Open(f)\<close> returns at time \<open>t\<close> (the file's content, or an error); \<open>path_base\<close> is
  \<open>filepath.Base\<close>; \<open>new_request\<close> is the error of \<open>http.NewRequest\<close> for a method and a URL;
  \<open>client_do\<close> is \<open>u.client.Do\<close>; \<open>batch_create\<close> is the error of
  \<open>u.service.MediaItems.BatchCreate(req).Do()\<close>; \<open>select_done t\<close> says that a \<open>select\<close> between a
  channel send and \<open>ctx.Done()\<close> entered at time \<open>t\<close> takes the \<open>ctx.Done()\<close> case.
  The last two fields are the state that \<open>select\<close> looks at, at the moment it takes its case:
  \<open>ctx_cancelled t\<close> says that the cancellation signal has fired (the channel \<open>ctx.Done()\<close> is
  closed), and \<open>send_ready t\<close> that the send can proceed (a receiver is waiting on the channel, or
  its buffer has room).
\<close>

record env =
  retries :: nat
  os_open :: "nat \<Rightarrow> string \<Rightarrow> string \<times> error option"
  path_base :: "string \<Rightarrow> string"
  new_request :: "string \<Rightarrow> string \<Rightarrow> error option"
  client_do :: "nat \<Rightarrow> request \<Rightarrow> response \<times> error option"
  batch_create :: "nat \<Rightarrow> BatchCreateMediaItemsRequest \<Rightarrow> error option"
  select_done :: "nat \<Rightarrow> bool"
  ctx_cancelled :: "nat \<Rightarrow> bool"
  send_ready :: "nat \<Rightarrow> bool"


section \<open>uploader.go\<close>

definition MaxUploadTokensPerCreateMediaItemsCall :: nat where
  "MaxUploadTokensPerCreateMediaItemsCall = 50"

definition uploads_url :: string where
  "uploads_url = ''https://photoslibrary.googleapis.com/v1/uploads''"

text \<open>
  The request \<open>Upload\<close> builds: \<open>http.NewRequest("POST", url, r)\<close> and the three headers it sets.
\<close>

definition upload_request :: "string \<Rightarrow> string \<Rightarrow> request" where
  "upload_request filename r =
     \<lparr>http_method = ''POST'', url = uploads_url,
      headers = [(''content-type'', ''application/octet-stream''),
                 (''x-goog-upload-file-name'', filename),
                 (''x-goog-upload-protocol'', ''raw'')],
      body = r\<rparr>"

text \<open>
  \<open>(u *Uploader) Upload(filename, r)\<close>: three early returns with the empty token, then the raw
  body as the token. The response's status code is never read. The deferred
  \<open>resp.Body.Close()\<close> runs on both returns that follow a response.
\<close>

definition Upload ::
  "env \<Rightarrow> string \<Rightarrow> string \<Rightarrow> event list \<Rightarrow> (UploadToken \<times> error option) \<times> event list" where
  "Upload E filename r tr =
     (case new_request E ''POST'' uploads_url of
        Some err \<Rightarrow> (('''', Some err), tr)
      | None \<Rightarrow>
          (let req = upload_request filename r
           in case client_do E (length tr) req of
                (resp, Some err) \<Rightarrow> (('''', Some err), tr @ [HttpDo req (Some err)])
              | (resp, None) \<Rightarrow>
                  (case read_all resp of
                     (rawToken, Some err) \<Rightarrow>
                       (('''', Some err), tr @ [HttpDo req None, BodyClosed])
                   | (rawToken, None) \<Rightarrow>
                       ((rawToken, None), tr @ [HttpDo req None, BodyClosed]))))"

text \<open>
  The loop of \<open>CreateMediaItems\<close> that appends one \<open>NewMediaItem\<close> per token to
  \<open>newMediaItems\<close>, in the order of \<open>range tokens\<close>.
\<close>

fun append_items :: "NewMediaItem list \<Rightarrow> UploadToken list \<Rightarrow> NewMediaItem list" where
  "append_items newMediaItems [] = newMediaItems"
| "append_items newMediaItems (token # tokens) =
     append_items
       (newMediaItems @ [\<lparr>SimpleMediaItem = \<lparr>UploadToken = token\<rparr>\<rparr>]) tokens"

text \<open>
  \<open>(u *Uploader) CreateMediaItems(tokens)\<close>, with the constant
  \<open>MaxUploadTokensPerCreateMediaItemsCall\<close> as the parameter \<open>mx\<close>. The length check returns before
  anything is sent; otherwise one \<open>BatchCreate\<close> call is made and its error returned.
\<close>

definition CreateMediaItems ::
  "nat \<Rightarrow> env \<Rightarrow> UploadToken list \<Rightarrow> event list \<Rightarrow> error option \<times> event list" where
  "CreateMediaItems mx E tokens tr =
     (if length tokens > mx then (Some (TooManyTokens (length tokens) mx), tr)
      else
        (let newMediaItems = append_items [] tokens;
             req = \<lparr>NewMediaItems = newMediaItems\<rparr>
         in case batch_create E (length tr) req of
              Some err \<Rightarrow> (Some err, tr @ [BatchCreate req (Some err)])
            | None \<Rightarrow> (None, tr @ [BatchCreate req None])))"

text \<open>The tokens a request carries, one per media item, in the request's order.\<close>

definition request_tokens :: "BatchCreateMediaItemsRequest \<Rightarrow> UploadToken list" where
  "request_tokens req = map (\<lambda>item. UploadToken (SimpleMediaItem item)) (NewMediaItems req)"

text \<open>The remote \<open>BatchCreate\<close> calls of a trace, in order: every call, and the calls that returned \<open>nil\<close>.\<close>

fun remote_calls :: "event list \<Rightarrow> BatchCreateMediaItemsRequest list" where
  "remote_calls [] = []"
| "remote_calls (BatchCreate req r # es) = req # remote_calls es"
| "remote_calls (e # es) = remote_calls es"

fun committed :: "event list \<Rightarrow> UploadToken list list" where
  "committed [] = []"
| "committed (BatchCreate req None # es) = request_tokens req # committed es"
| "committed (e # es) = committed es"

section \<open>The Retry Wrapper\<close>

text \<open>
  Modelled from the spec: \<open>retry.Do\<close> of the library \<open>github.com/avast/retry-go\<close> is called by \<open>run\<close>
  with no options and its code is not part of the repository. Following section 4.2 of the
  specification, it invokes the operation, invokes it again after a failure, at most \<open>n\<close> more
  times, and returns the error of the last invocation when all of them failed. The operation is a
  Go closure: it reads and writes the state \<open>'s\<close> it captures.
\<close>

fun retry_do :: "nat \<Rightarrow> ('s \<Rightarrow> error option \<times> 's) \<Rightarrow> 's \<Rightarrow> error option \<times> 's" where
  "retry_do 0 f s = f s"
| "retry_do (Suc n) f s =
     (case f s of
        (None, s') \<Rightarrow> (None, s')
      | (Some err, s') \<Rightarrow> retry_do n f s')"

text \<open>
  An operation that also writes each of its results to a log, to observe from outside how often a
  wrapper invoked it and what it returned each time.
\<close>

definition recording ::
  "('s \<Rightarrow> error option \<times> 's) \<Rightarrow> error option list \<times> 's \<Rightarrow> error option \<times> error option list \<times> 's" where
  "recording f = (\<lambda>(log, s). case f s of (r, s') \<Rightarrow> (r, (log @ [r], s')))"

section \<open>The command: uploadFile and the stages of run\<close>

text \<open>
  \<open>uploadFile(u, filename)\<close>: \<open>os.Open\<close>, an early return on its error, then \<open>u.Upload\<close> of the
  base name and the file; the deferred \<open>f.Close()\<close> runs after \<open>Upload\<close>.
\<close>

definition uploadFile ::
  "env \<Rightarrow> string \<Rightarrow> event list \<Rightarrow> (UploadToken \<times> error option) \<times> event list" where
  "uploadFile E filename tr =
     (case os_open E (length tr) filename of
        (f, Some err) \<Rightarrow> (('''', Some err), tr @ [OsOpen filename (Some err)])
      | (f, None) \<Rightarrow>
          (case Upload E (path_base E filename) f (tr @ [OsOpen filename None]) of
             (res, tr') \<Rightarrow> (res, tr' @ [FileClosed filename])))"

text \<open>
  The closure a worker hands to \<open>retry.Do\<close> (lines 105 to 109): it assigns both results of
  \<open>uploadFile\<close>, the token to the captured variable \<open>uploadToken\<close>, and returns the error.
\<close>

definition upload_attempt ::
  "env \<Rightarrow> string \<Rightarrow> UploadToken \<times> event list \<Rightarrow> error option \<times> UploadToken \<times> event list" where
  "upload_attempt E filename =
     (\<lambda>(uploadToken, tr). case uploadFile E filename tr of ((tok, err), tr') \<Rightarrow> (err, (tok, tr')))"

text \<open>
  The path source (lines 80 to 92) over \<open>flag.Args()\<close>: one \<open>select\<close> per file name; the deferred
  \<open>close(filenames)\<close> runs on both returns.
\<close>

fun path_source :: "env \<Rightarrow> string list \<Rightarrow> event list \<Rightarrow> error option \<times> event list" where
  "path_source E [] tr = (None, tr @ [FilenamesClosed])"
| "path_source E (filename # args) tr =
     (if select_done E (length tr) then (Some Canceled, tr @ [CtxDone, FilenamesClosed])
      else path_source E args (tr @ [FilenameSent filename]))"

text \<open>
  One worker (lines 100 to 128), over the file names it receives from the channel \<open>filenames\<close>
  until the channel is closed. \<open>uploadToken\<close> starts as the empty string.
\<close>

fun worker :: "env \<Rightarrow> string list \<Rightarrow> event list \<Rightarrow> error option \<times> event list" where
  "worker E [] tr = (None, tr)"
| "worker E (filename # received) tr =
     (case retry_do (retries E) (upload_attempt E filename) ('''', tr) of
        (Some err, (uploadToken, tr1)) \<Rightarrow> (Some (UploadingFile filename err), tr1)
      | (None, (uploadToken, tr1)) \<Rightarrow>
          (if select_done E (length tr1) then (Some Canceled, tr1 @ [CtxDone])
           else
             (let tr2 = tr1 @ [TokenSent uploadToken]
              in if select_done E (length tr2) then (Some Canceled, tr2 @ [CtxDone])
                 else worker E received (tr2 @ [MessageSent (Uploaded filename)]))))"

text \<open>
  The closure \<open>uploadBatch\<close> of the batcher (lines 137 to 155). \<open>Flush batch\<close> marks the call of
  \<open>retry.Do\<close> around \<open>u.CreateMediaItems(batch)\<close>; the remote calls follow it in the trace.
\<close>

definition uploadBatch ::
  "nat \<Rightarrow> env \<Rightarrow> UploadToken list \<Rightarrow> event list \<Rightarrow> error option \<times> event list" where
  "uploadBatch mx E batch tr =
     (if length batch = 0 then (None, tr)
      else
        (case retry_do (retries E) (CreateMediaItems mx E batch) (tr @ [Flush batch]) of
           (Some err, tr1) \<Rightarrow> (Some err, tr1)
         | (None, tr1) \<Rightarrow>
             (if select_done E (length tr1) then (Some Canceled, tr1 @ [CtxDone])
              else (None, tr1 @ [MessageSent (UploadedBatch (length batch))]))))"

text \<open>
  The loop of the batcher (lines 157 to 169) over the tokens it receives from \<open>uploadTokens\<close>
  until the channel is closed, with \<open>currentBatch\<close> as the first list.
\<close>

fun batcher_loop ::
  "nat \<Rightarrow> env \<Rightarrow> UploadToken list \<Rightarrow> UploadToken list \<Rightarrow> event list \<Rightarrow> error option \<times> event list" where
  "batcher_loop mx E currentBatch [] tr = uploadBatch mx E currentBatch (tr @ [TokensClosed])"
| "batcher_loop mx E currentBatch (uploadToken # received) tr =
     (let currentBatch' = currentBatch @ [uploadToken];
          tr1 = tr @ [TokenReceived uploadToken]
      in if length currentBatch' \<ge> mx then
           (case uploadBatch mx E currentBatch' tr1 of
              (Some err, tr2) \<Rightarrow> (Some err, tr2)
            | (None, tr2) \<Rightarrow> batcher_loop mx E [] received tr2)
         else batcher_loop mx E currentBatch' received tr1)"

definition batcher :: "nat \<Rightarrow> env \<Rightarrow> UploadToken list \<Rightarrow> event list \<Rightarrow> error option \<times> event list" where
  "batcher mx E received tr = batcher_loop mx E [] received tr"

text \<open>
  Modelled from the spec: \<open>g.Wait()\<close> of the library \<open>golang.org/x/sync/errgroup\<close> (section 4.6:
  the group waits for every task and returns the first error), over the tasks' results in the
  order in which the tasks returned. \<open>run_result\<close> is the end of \<open>run\<close> (lines 178 to 181).
\<close>

fun errgroup_wait :: "error option list \<Rightarrow> error option" where
  "errgroup_wait [] = None"
| "errgroup_wait (None # rs) = errgroup_wait rs"
| "errgroup_wait (Some err # rs) = Some err"

definition run_result :: "error option list \<Rightarrow> error option" where
  "run_result rs =
     (case errgroup_wait rs of
        Some err \<Rightarrow> Some (FailedToUploadPhotos err)
      | None \<Rightarrow> None)"

section \<open>Observations on traces\<close>

fun flushes :: "event list \<Rightarrow> UploadToken list list" where
  "flushes [] = []"
| "flushes (Flush batch # es) = batch # flushes es"
| "flushes (e # es) = flushes es"

fun opens :: "event list \<Rightarrow> (string \<times> error option) list" where
  "opens [] = []"
| "opens (OsOpen f r # es) = (f, r) # opens es"
| "opens (e # es) = opens es"

fun http_calls :: "event list \<Rightarrow> request list" where
  "http_calls [] = []"
| "http_calls (HttpDo req r # es) = req # http_calls es"
| "http_calls (e # es) = http_calls es"

fun tokens_sent :: "event list \<Rightarrow> UploadToken list" where
  "tokens_sent [] = []"
| "tokens_sent (TokenSent t # es) = t # tokens_sent es"
| "tokens_sent (e # es) = tokens_sent es"

fun filenames_sent :: "event list \<Rightarrow> string list" where
  "filenames_sent [] = []"
| "filenames_sent (FilenameSent f # es) = f # filenames_sent es"
| "filenames_sent (e # es) = filenames_sent es"

text \<open>
  Whether the batcher saw the token stream closed before it flushed anything: no \<open>Flush\<close> comes
  before the first \<open>TokensClosed\<close>.
\<close>

fun flushes_follow_close :: "event list \<Rightarrow> bool" where
  "flushes_follow_close [] = True"
| "flushes_follow_close (TokensClosed # es) = True"
| "flushes_follow_close (Flush batch # es) = False"
| "flushes_follow_close (e # es) = flushes_follow_close es"

text \<open>
  The batches of a run of the batcher's loop in which every flush succeeds, as a function of
  \<open>currentBatch\<close> and the tokens still to come.
\<close>

fun batches :: "nat \<Rightarrow> 'a list \<Rightarrow> 'a list \<Rightarrow> 'a list list" where
  "batches mx cur [] = (if length cur = 0 then [] else [cur])"
| "batches mx cur (t # ts) =
     (if length (cur @ [t]) \<ge> mx then (cur @ [t]) # batches mx [] ts
      else batches mx (cur @ [t]) ts)"

section \<open>The worker pool and the close of the token stream\<close>

text \<open>
  Lines 95 to 133 as a transition system over the interleavings of the main goroutine, the
  workers and the goroutine that closes \<open>uploadTokens\<close>. The main goroutine runs the loop
  \<open>for i := 0; i < uploadConcurrency; i++\<close>: \<open>WgAdd\<close> is \<open>wg.Add(1)\<close>, \<open>GoWorker\<close> is the \<open>g.Go\<close> that
  starts worker \<open>i\<close>, and the number of workers started is \<open>i\<close>. After the loop \<open>GoCloser\<close> starts the
  closing goroutine; \<open>WaitReturns\<close> is the return of its \<open>wg.Wait()\<close>, possible only when the counter
  is zero; \<open>CloseTokens\<close> is its \<open>close(uploadTokens)\<close>. Of a worker only the two steps that touch
  the shared state are kept: \<open>Send i\<close>, the send on \<open>uploadTokens\<close> (line 115), which panics on a
  closed channel, and \<open>Return i\<close>, any of its returns, which runs the deferred \<open>wg.Done()\<close>.
  \<open>pool_step\<close> is \<open>None\<close> when the action cannot be the next step.
\<close>

datatype wstatus = Running | Exited

datatype closer = NotStarted | Waiting | Passed | Finished

record pool =
  added :: bool
  wg :: int
  workers :: "wstatus list"
  closer :: closer
  closed :: bool
  panicked :: bool

datatype action = WgAdd | GoWorker | Send nat | Return nat | GoCloser | WaitReturns | CloseTokens

definition pool_init :: pool where
  "pool_init = \<lparr>added = False, wg = 0, workers = [], closer = NotStarted,
                 closed = False, panicked = False\<rparr>"

fun pool_step :: "nat \<Rightarrow> action \<Rightarrow> pool \<Rightarrow> pool option" where
  "pool_step uploadConcurrency WgAdd s =
     (if length (workers s) < uploadConcurrency \<and> \<not> added s
      then Some (s\<lparr>added := True, wg := wg s + 1\<rparr>) else None)"
| "pool_step uploadConcurrency GoWorker s =
     (if added s then Some (s\<lparr>added := False, workers := workers s @ [Running]\<rparr>) else None)"
| "pool_step uploadConcurrency (Send i) s =
     (if i < length (workers s) \<and> workers s ! i = Running
      then Some (if closed s then s\<lparr>panicked := True\<rparr> else s) else None)"
| "pool_step uploadConcurrency (Return i) s =
     (if i < length (workers s) \<and> workers s ! i = Running
      then Some (s\<lparr>workers := (workers s)[i := Exited], wg := wg s - 1\<rparr>) else None)"
| "pool_step uploadConcurrency GoCloser s =
     (if \<not> length (workers s) < uploadConcurrency \<and> \<not> added s \<and> closer s = NotStarted
      then Some (s\<lparr>closer := Waiting\<rparr>) else None)"
| "pool_step uploadConcurrency WaitReturns s =
     (if closer s = Waiting \<and> wg s = 0 then Some (s\<lparr>closer := Passed\<rparr>) else None)"
| "pool_step uploadConcurrency CloseTokens s =
     (if closer s = Passed then Some (s\<lparr>closer := Finished, closed := True\<rparr>) else None)"

fun pool_run :: "nat \<Rightarrow> action list \<Rightarrow> pool \<Rightarrow> pool option" where
  "pool_run uploadConcurrency [] s = Some s"
| "pool_run uploadConcurrency (a # as) s =
     (case pool_step uploadConcurrency a s of
        None \<Rightarrow> None
      | Some s' \<Rightarrow> pool_run uploadConcurrency as s')"

text \<open>What the proof keeps along every interleaving.\<close>

definition pool_inv :: "nat \<Rightarrow> pool \<Rightarrow> bool" where
  "pool_inv uploadConcurrency s =
     (wg s = int (length (filter (\<lambda>w. w = Running) (workers s))) + (if added s then 1 else 0)
      \<and> length (workers s) + (if added s then 1 else 0) \<le> uploadConcurrency
      \<and> (closer s = NotStarted \<or> (length (workers s) = uploadConcurrency \<and> \<not> added s))
      \<and> (closer s = Passed \<or> closer s = Finished \<or> \<not> closed s)
      \<and> ((closer s = NotStarted \<or> closer s = Waiting) \<or> filter (\<lambda>w. w = Running) (workers s) = [])
      \<and> \<not> panicked s)"

section \<open>Environments for the examples\<close>

text \<open>
  An environment in which nothing fails and nothing is cancelled: every file opens, the upload
  endpoint answers 200 with a token made from the request's body, the remote call succeeds.
\<close>

definition quiet_env :: env where
  "quiet_env =
     \<lparr>retries = 2,
      os_open = (\<lambda>t f. (''bytes of '' @ f, None)),
      path_base = (\<lambda>f. f),
      new_request = (\<lambda>m u. None),
      client_do = (\<lambda>t req. (\<lparr>status = 200, read_all = (''token for '' @ body req, None)\<rparr>, None)),
      batch_create = (\<lambda>t req. None),
      select_done = (\<lambda>t. False),
      ctx_cancelled = (\<lambda>t. False),
      send_ready = (\<lambda>t. True)\<rparr>"

text \<open>The upload endpoint answers 500 with an error page as the body.\<close>

definition http500_env :: env where
  "http500_env =
     quiet_env\<lparr>client_do :=
       (\<lambda>t req. (\<lparr>status = 500, read_all = (''Internal Server Error'', None)\<rparr>, None))\<rparr>"

text \<open>No file can be opened.\<close>

definition unreadable_env :: env where
  "unreadable_env =
     quiet_env\<lparr>os_open := (\<lambda>t f. ('''', Some (Failure ''open: no such file or directory'')))\<rparr>"

text \<open>The remote call fails at time \<open>fail_at\<close> and at no other time.\<close>

definition flaky_env :: "nat \<Rightarrow> env" where
  "flaky_env fail_at =
     quiet_env\<lparr>batch_create :=
       (\<lambda>t req. if t = fail_at then Some (Failure ''503 Service Unavailable'') else None)\<rparr>"

text \<open>The remote call fails at every time, with an error that names the time.\<close>

definition remote_down_env :: env where
  "remote_down_env =
     quiet_env\<lparr>batch_create := (\<lambda>t req. Some (Failure (replicate t CHR ''x'')))\<rparr>"

text \<open>The upload endpoint cannot be reached: \<open>client.Do\<close> fails at every time.\<close>

definition http_down_env :: env where
  "http_down_env =
     quiet_env\<lparr>client_do :=
       (\<lambda>t req. (\<lparr>status = 0, read_all = ('''', None)\<rparr>, Some (Failure ''connection refused'')))\<rparr>"



section \<open>Lemmas: uploader.go\<close>

lemma append_items_eq:
  "append_items acc tokens = acc @ map (\<lambda>t. \<lparr>SimpleMediaItem = \<lparr>UploadToken = t\<rparr>\<rparr>) tokens"
  by (induction tokens arbitrary: acc) simp_all

lemma request_tokens_append_items [simp]:
  "request_tokens \<lparr>NewMediaItems = append_items [] tokens\<rparr> = tokens"
  by (simp add: request_tokens_def append_items_eq comp_def)

lemma remote_calls_append [simp]:
  "remote_calls (xs @ ys) = remote_calls xs @ remote_calls ys"
  by (induction xs rule: remote_calls.induct) simp_all

lemma committed_append [simp]: "committed (xs @ ys) = committed xs @ committed ys"
  by (induction xs rule: committed.induct) simp_all

section \<open>Lemmas: traces, the Retry Wrapper around a commit, the batches\<close>

lemma flushes_append [simp]: "flushes (xs @ ys) = flushes xs @ flushes ys"
  by (induction xs rule: flushes.induct) simp_all

lemma opens_append [simp]: "opens (xs @ ys) = opens xs @ opens ys"
  by (induction xs rule: opens.induct) simp_all

lemma http_calls_append [simp]: "http_calls (xs @ ys) = http_calls xs @ http_calls ys"
  by (induction xs rule: http_calls.induct) simp_all

lemma tokens_sent_append [simp]: "tokens_sent (xs @ ys) = tokens_sent xs @ tokens_sent ys"
  by (induction xs rule: tokens_sent.induct) simp_all

lemma filenames_sent_append [simp]:
  "filenames_sent (xs @ ys) = filenames_sent xs @ filenames_sent ys"
  by (induction xs rule: filenames_sent.induct) simp_all

lemma flushes_follow_close_received [simp]:
  "flushes_follow_close (map TokenReceived ts @ es) = flushes_follow_close es"
  by (induction ts) simp_all

lemma remote_calls_received [simp]: "remote_calls (map TokenReceived ts) = []"
  by (induction ts) simp_all

lemma flushes_received [simp]: "flushes (map TokenReceived ts) = []"
  by (induction ts) simp_all

lemma committed_received [simp]: "committed (map TokenReceived ts) = []"
  by (induction ts) simp_all

lemma opens_map_OsOpen [simp]: "opens (map (\<lambda>i. OsOpen f (g i)) xs) = map (\<lambda>i. (f, g i)) xs"
  by (induction xs) simp_all

lemma http_calls_map_OsOpen [simp]: "http_calls (map (\<lambda>i. OsOpen f (g i)) xs) = []"
  by (induction xs) simp_all

lemma tokens_sent_map_OsOpen [simp]: "tokens_sent (map (\<lambda>i. OsOpen f (g i)) xs) = []"
  by (induction xs) simp_all

lemma remote_calls_map_BatchCreate [simp]:
  "remote_calls (map (\<lambda>i. BatchCreate req (g i)) xs) = map (\<lambda>i. req) xs"
  by (induction xs) simp_all

lemma CreateMediaItems_cases:
  assumes "CreateMediaItems mx E batch tr = (r, tr')"
  shows "(r \<noteq> None \<and> tr' = tr) \<or>
         tr' = tr @ [BatchCreate \<lparr>NewMediaItems = append_items [] batch\<rparr> r]"
proof (cases "length batch > mx")
  case True
  with assms show ?thesis by (auto simp: CreateMediaItems_def)
next
  case False
  with assms show ?thesis
    by (cases "batch_create E (length tr) \<lparr>NewMediaItems = append_items [] batch\<rparr>")
       (auto simp: CreateMediaItems_def Let_def)
qed

lemma committed_single [simp]:
  "committed [BatchCreate req r] = (if r = None then [request_tokens req] else [])"
  by (cases r) simp_all

lemma CreateMediaItems_events:
  assumes "CreateMediaItems mx E batch tr = (r, tr')"
  shows "\<exists>evs. tr' = tr @ evs \<and> flushes evs = [] \<and> length evs \<le> 1
           \<and> committed evs = (if r = None then [batch] else [])
           \<and> (\<forall>req \<in> set (remote_calls evs). request_tokens req = batch)"
proof -
  from CreateMediaItems_cases [OF assms] show ?thesis
  proof
    assume "r \<noteq> None \<and> tr' = tr"
    then have "tr' = tr @ [] \<and> flushes [] = [] \<and> length ([]::event list) \<le> 1
           \<and> committed [] = (if r = None then [batch] else [])
           \<and> (\<forall>req \<in> set (remote_calls []). request_tokens req = batch)" by simp
    then show ?thesis by blast
  next
    let ?e = "BatchCreate \<lparr>NewMediaItems = append_items [] batch\<rparr> r"
    assume "tr' = tr @ [?e]"
    then have "tr' = tr @ [?e] \<and> flushes [?e] = [] \<and> length [?e] \<le> 1
           \<and> committed [?e] = (if r = None then [batch] else [])
           \<and> (\<forall>req \<in> set (remote_calls [?e]). request_tokens req = batch)" by simp
    then show ?thesis by blast
  qed
qed

lemma retry_do_CreateMediaItems_events:
  assumes "retry_do n (CreateMediaItems mx E batch) tr = (r, tr')"
  shows "\<exists>evs. tr' = tr @ evs \<and> flushes evs = [] \<and> length evs \<le> n + 1
           \<and> committed evs = (if r = None then [batch] else [])
           \<and> (\<forall>req \<in> set (remote_calls evs). request_tokens req = batch)"
  using assms
proof (induction n arbitrary: tr r tr')
  case 0
  then have c: "CreateMediaItems mx E batch tr = (r, tr')" by simp
  from CreateMediaItems_events [OF c] show ?case by simp
next
  case (Suc n)
  obtain r1 tr1 where c: "CreateMediaItems mx E batch tr = (r1, tr1)"
    by (cases "CreateMediaItems mx E batch tr")
  from CreateMediaItems_events [OF c] obtain evs1 where
    e1: "tr1 = tr @ evs1" "flushes evs1 = []" "length evs1 \<le> 1"
      "committed evs1 = (if r1 = None then [batch] else [])"
      "\<forall>req \<in> set (remote_calls evs1). request_tokens req = batch"
    by blast
  show ?case
  proof (cases r1)
    case None
    with Suc.prems c have "r = None" "tr' = tr1" by simp_all
    with e1 None have "tr' = tr @ evs1 \<and> flushes evs1 = [] \<and> length evs1 \<le> Suc n + 1
           \<and> committed evs1 = (if r = None then [batch] else [])
           \<and> (\<forall>req \<in> set (remote_calls evs1). request_tokens req = batch)" by simp
    then show ?thesis by blast
  next
    case (Some err)
    with Suc.prems c have "retry_do n (CreateMediaItems mx E batch) tr1 = (r, tr')" by simp
    from Suc.IH [OF this] obtain evs2 where
      e2: "tr' = tr1 @ evs2" "flushes evs2 = []" "length evs2 \<le> n + 1"
        "committed evs2 = (if r = None then [batch] else [])"
        "\<forall>req \<in> set (remote_calls evs2). request_tokens req = batch"
      by blast
    have "tr' = tr @ (evs1 @ evs2)" using e1 e2 by simp
    moreover have "committed (evs1 @ evs2) = (if r = None then [batch] else [])"
      using e1 e2 Some by simp
    moreover have "flushes (evs1 @ evs2) = []" using e1 e2 by simp
    moreover have "length (evs1 @ evs2) \<le> Suc n + 1" using e1 e2 by simp
    moreover have "\<forall>req \<in> set (remote_calls (evs1 @ evs2)). request_tokens req = batch"
      using e1 e2 by auto
    ultimately show ?thesis by blast
  qed
qed

lemma uploadBatch_Nil [simp]: "uploadBatch mx E [] tr = (None, tr)"
  by (simp add: uploadBatch_def)

lemma uploadBatch_events:
  assumes "uploadBatch mx E batch tr = (r, tr')" and "batch \<noteq> []"
  shows "\<exists>evs. tr' = tr @ Flush batch # evs
           \<and> flushes evs = []
           \<and> (r = None \<longrightarrow> committed evs = [batch])
           \<and> prefix (committed evs) [batch]
           \<and> (\<forall>req \<in> set (remote_calls evs). request_tokens req = batch)"
proof -
  obtain r1 tr1 where
    c: "retry_do (retries E) (CreateMediaItems mx E batch) (tr @ [Flush batch]) = (r1, tr1)"
    by (cases "retry_do (retries E) (CreateMediaItems mx E batch) (tr @ [Flush batch])")
  from retry_do_CreateMediaItems_events [OF c] obtain evs1 where
    e1: "tr1 = (tr @ [Flush batch]) @ evs1" "flushes evs1 = []"
      "committed evs1 = (if r1 = None then [batch] else [])"
      "\<forall>req \<in> set (remote_calls evs1). request_tokens req = batch"
    by blast
  show ?thesis
  proof (cases r1)
    case (Some err)
    with assms c have "r = Some err" "tr' = tr1" by (simp_all add: uploadBatch_def)
    with e1 have "tr' = tr @ Flush batch # evs1 \<and> flushes evs1 = []
           \<and> (r = None \<longrightarrow> committed evs1 = [batch])
           \<and> prefix (committed evs1) [batch]
           \<and> (\<forall>req \<in> set (remote_calls evs1). request_tokens req = batch)" by simp
    then show ?thesis by blast
  next
    case None
    show ?thesis
    proof (cases "select_done E (length tr1)")
      case True
      with None assms c have "r = Some Canceled" "tr' = tr1 @ [CtxDone]"
        by (simp_all add: uploadBatch_def)
      with e1 have "tr' = tr @ Flush batch # (evs1 @ [CtxDone]) \<and> flushes (evs1 @ [CtxDone]) = []
           \<and> (r = None \<longrightarrow> committed (evs1 @ [CtxDone]) = [batch])
           \<and> prefix (committed (evs1 @ [CtxDone])) [batch]
           \<and> (\<forall>req \<in> set (remote_calls (evs1 @ [CtxDone])). request_tokens req = batch)"
        by simp
      then show ?thesis by blast
    next
      case False
      let ?m = "MessageSent (UploadedBatch (length batch))"
      from False None assms c have "r = None" "tr' = tr1 @ [?m]"
        by (simp_all add: uploadBatch_def)
      with e1 None have "tr' = tr @ Flush batch # (evs1 @ [?m]) \<and> flushes (evs1 @ [?m]) = []
           \<and> (r = None \<longrightarrow> committed (evs1 @ [?m]) = [batch])
           \<and> prefix (committed (evs1 @ [?m])) [batch]
           \<and> (\<forall>req \<in> set (remote_calls (evs1 @ [?m])). request_tokens req = batch)"
        by simp
      then show ?thesis by blast
    qed
  qed
qed

lemma concat_batches: "concat (batches mx cur ts) = cur @ ts"
  by (induction ts arbitrary: cur) simp_all

lemma batches_length_le:
  "length cur < mx \<Longrightarrow> b \<in> set (batches mx cur ts) \<Longrightarrow> length b \<le> mx"
proof (induction ts arbitrary: cur)
  case Nil
  then show ?case by (simp split: if_splits)
next
  case (Cons t ts)
  show ?case
  proof (cases "length (cur @ [t]) \<ge> mx")
    case True
    with Cons.prems have "b = cur @ [t] \<or> b \<in> set (batches mx [] ts)" by simp
    then show ?thesis
    proof
      assume "b = cur @ [t]"
      with Cons.prems show ?thesis by simp
    next
      assume "b \<in> set (batches mx [] ts)"
      moreover from Cons.prems have "length ([]::'a list) < mx" by simp
      ultimately show ?thesis by (rule Cons.IH [rotated])
    qed
  next
    case False
    with Cons.prems have "b \<in> set (batches mx (cur @ [t]) ts)" by simp
    moreover from False have "length (cur @ [t]) < mx" by simp
    ultimately show ?thesis by (rule Cons.IH [rotated])
  qed
qed

lemma batches_butlast_full:
  "length cur < mx \<Longrightarrow> b \<in> set (butlast (batches mx cur ts)) \<Longrightarrow> length b = mx"
proof (induction ts arbitrary: cur)
  case Nil
  then show ?case by (simp split: if_splits)
next
  case (Cons t ts)
  show ?case
  proof (cases "length (cur @ [t]) \<ge> mx")
    case True
    with Cons.prems have "b = cur @ [t] \<or> b \<in> set (butlast (batches mx [] ts))"
      by (simp split: if_splits)
    then show ?thesis
    proof
      assume "b = cur @ [t]"
      with Cons.prems True show ?thesis by simp
    next
      assume "b \<in> set (butlast (batches mx [] ts))"
      moreover from Cons.prems have "length ([]::'a list) < mx" by simp
      ultimately show ?thesis by (rule Cons.IH [rotated])
    qed
  next
    case False
    with Cons.prems have "b \<in> set (butlast (batches mx (cur @ [t]) ts))" by simp
    moreover from False have "length (cur @ [t]) < mx" by simp
    ultimately show ?thesis by (rule Cons.IH [rotated])
  qed
qed

lemma batches_sizes:
  "length cur < mx \<Longrightarrow>
   map length (batches mx cur ts) =
     replicate ((length cur + length ts) div mx) mx @
     (if (length cur + length ts) mod mx = 0 then [] else [(length cur + length ts) mod mx])"
proof (induction ts arbitrary: cur)
  case Nil
  then show ?case by simp
next
  case (Cons t ts)
  show ?case
  proof (cases "length (cur @ [t]) \<ge> mx")
    case True
    with Cons.prems have eq: "Suc (length cur) = mx" by simp
    from Cons.prems have "length ([]::'a list) < mx" by simp
    from Cons.IH [OF this] have ih: "map length (batches mx [] ts) =
       replicate (length ts div mx) mx @
       (if length ts mod mx = 0 then [] else [length ts mod mx])" by simp
    have s: "length cur + length (t # ts) = mx + length ts" using eq by simp
    have "0 < mx" using Cons.prems by simp
    then have d: "(mx + length ts) div mx = Suc (length ts div mx)"
      by (simp add: div_add_self1)
    have m: "(mx + length ts) mod mx = length ts mod mx" by simp
    show ?thesis using True eq ih unfolding s d m by simp
  next
    case False
    then have "length (cur @ [t]) < mx" by simp
    from Cons.IH [OF this] False show ?thesis by simp
  qed
qed

lemma set_butlast_prefix:
  assumes "prefix p xs"
  shows "set (butlast p) \<subseteq> set (butlast xs)"
proof -
  from assms obtain zs where xs: "xs = p @ zs" by (auto simp: prefix_def)
  show ?thesis
  proof (cases zs)
    case Nil
    with xs show ?thesis by simp
  next
    case (Cons z zs')
    with xs have "butlast xs = p @ butlast zs" by (simp add: butlast_append)
    then show ?thesis by (auto dest: in_set_butlastD)
  qed
qed

lemma batcher_loop_events:
  assumes "batcher_loop mx E cur ts tr = (r, tr')"
  shows "\<exists>evs. tr' = tr @ evs \<and> prefix (flushes evs) (batches mx cur ts)
           \<and> prefix (committed evs) (flushes evs)
           \<and> (r = None \<longrightarrow> flushes evs = batches mx cur ts \<and> committed evs = batches mx cur ts)"
  using assms
proof (induction ts arbitrary: cur tr r tr')
  case Nil
  then have u: "uploadBatch mx E cur (tr @ [TokensClosed]) = (r, tr')" by simp
  show ?case
  proof (cases "cur = []")
    case True
    with u have "tr' = tr @ [TokensClosed]" by simp
    with True have "tr' = tr @ [TokensClosed] \<and> prefix (flushes [TokensClosed]) (batches mx cur [])
           \<and> prefix (committed [TokensClosed]) (flushes [TokensClosed])
           \<and> (r = None \<longrightarrow> flushes [TokensClosed] = batches mx cur []
                \<and> committed [TokensClosed] = batches mx cur [])" by simp
    then show ?thesis by blast
  next
    case False
    from uploadBatch_events [OF u False] obtain evs where
      e: "tr' = (tr @ [TokensClosed]) @ Flush cur # evs" "flushes evs = []"
        "r = None \<longrightarrow> committed evs = [cur]" "prefix (committed evs) [cur]" by blast
    let ?evs = "TokensClosed # Flush cur # evs"
    from e False have "tr' = tr @ ?evs \<and> prefix (flushes ?evs) (batches mx cur [])
           \<and> prefix (committed ?evs) (flushes ?evs)
           \<and> (r = None \<longrightarrow> flushes ?evs = batches mx cur []
                \<and> committed ?evs = batches mx cur [])" by simp
    then show ?thesis by blast
  qed
next
  case (Cons t ts)
  let ?cur = "cur @ [t]"
  let ?tr1 = "tr @ [TokenReceived t]"
  show ?case
  proof (cases "length ?cur \<ge> mx")
    case False
    with Cons.prems have "batcher_loop mx E ?cur ts ?tr1 = (r, tr')" by (simp add: Let_def)
    from Cons.IH [OF this] obtain evs where
      e: "tr' = ?tr1 @ evs" "prefix (flushes evs) (batches mx ?cur ts)"
        "prefix (committed evs) (flushes evs)"
        "r = None \<longrightarrow> flushes evs = batches mx ?cur ts \<and> committed evs = batches mx ?cur ts"
      by blast
    let ?evs = "TokenReceived t # evs"
    from e False have "tr' = tr @ ?evs \<and> prefix (flushes ?evs) (batches mx cur (t # ts))
           \<and> prefix (committed ?evs) (flushes ?evs)
           \<and> (r = None \<longrightarrow> flushes ?evs = batches mx cur (t # ts)
                \<and> committed ?evs = batches mx cur (t # ts))" by simp
    then show ?thesis by blast
  next
    case True
    obtain r1 tr1 where u: "uploadBatch mx E ?cur ?tr1 = (r1, tr1)"
      by (cases "uploadBatch mx E ?cur ?tr1")
    have ne: "?cur \<noteq> []" by simp
    from uploadBatch_events [OF u ne] obtain evs1 where
      e1: "tr1 = ?tr1 @ Flush ?cur # evs1" "flushes evs1 = []"
        "r1 = None \<longrightarrow> committed evs1 = [?cur]" "prefix (committed evs1) [?cur]" by blast
    show ?thesis
    proof (cases r1)
      case (Some err)
      with Cons.prems True u have "r = Some err" "tr' = tr1" by (simp_all add: Let_def)
      let ?evs = "TokenReceived t # Flush ?cur # evs1"
      from \<open>r = Some err\<close> \<open>tr' = tr1\<close> e1 True
      have "tr' = tr @ ?evs \<and> prefix (flushes ?evs) (batches mx cur (t # ts))
           \<and> prefix (committed ?evs) (flushes ?evs)
           \<and> (r = None \<longrightarrow> flushes ?evs = batches mx cur (t # ts)
                \<and> committed ?evs = batches mx cur (t # ts))" by simp
      then show ?thesis by blast
    next
      case None
      with Cons.prems True u have "batcher_loop mx E [] ts tr1 = (r, tr')" by (simp add: Let_def)
      from Cons.IH [OF this] obtain evs2 where
        e2: "tr' = tr1 @ evs2" "prefix (flushes evs2) (batches mx [] ts)"
          "prefix (committed evs2) (flushes evs2)"
          "r = None \<longrightarrow> flushes evs2 = batches mx [] ts \<and> committed evs2 = batches mx [] ts"
        by blast
      let ?evs = "TokenReceived t # Flush ?cur # evs1 @ evs2"
      from e1 e2 None True
      have "tr' = tr @ ?evs \<and> prefix (flushes ?evs) (batches mx cur (t # ts))
           \<and> prefix (committed ?evs) (flushes ?evs)
           \<and> (r = None \<longrightarrow> flushes ?evs = batches mx cur (t # ts)
                \<and> committed ?evs = batches mx cur (t # ts))" by simp
      then show ?thesis by blast
    qed
  qed
qed

section \<open>Claims about uploader.go\<close>

text \<open>
  Claim C4. The constant is 50. \<open>CreateMediaItems\<close> on more tokens than the constant returns its
  own error and leaves the trace as it was: no remote call is made. On at most that many tokens
  it makes exactly one remote call, returns that call's result, and the call's request has one
  media item per token, carrying the tokens in the input order.
\<close>

theorem CreateMediaItems_limit:
  "MaxUploadTokensPerCreateMediaItemsCall = 50 \<and>
   (length tokens > MaxUploadTokensPerCreateMediaItemsCall \<longrightarrow>
      CreateMediaItems MaxUploadTokensPerCreateMediaItemsCall E tokens tr =
        (Some (TooManyTokens (length tokens) MaxUploadTokensPerCreateMediaItemsCall), tr)) \<and>
   (length tokens \<le> MaxUploadTokensPerCreateMediaItemsCall \<longrightarrow>
      (let req = \<lparr>NewMediaItems = map (\<lambda>t. \<lparr>SimpleMediaItem = \<lparr>UploadToken = t\<rparr>\<rparr>) tokens\<rparr>;
           res = CreateMediaItems MaxUploadTokensPerCreateMediaItemsCall E tokens tr
       in fst res = batch_create E (length tr) req
          \<and> snd res = tr @ [BatchCreate req (fst res)]
          \<and> remote_calls (snd res) = remote_calls tr @ [req]
          \<and> length (NewMediaItems req) = length tokens
          \<and> request_tokens req = tokens))"
  by (auto simp: CreateMediaItems_def MaxUploadTokensPerCreateMediaItemsCall_def Let_def
      append_items_eq request_tokens_def comp_def split: option.splits)

theorem CreateMediaItems_limit_witness:
  "CreateMediaItems MaxUploadTokensPerCreateMediaItemsCall quiet_env (replicate 51 ''t'') [] =
     (Some (TooManyTokens 51 50), [])
   \<and> remote_calls (snd (CreateMediaItems MaxUploadTokensPerCreateMediaItemsCall quiet_env
        [''t1'', ''t2''] [])) =
       [\<lparr>NewMediaItems = [\<lparr>SimpleMediaItem = \<lparr>UploadToken = ''t1''\<rparr>\<rparr>,
                           \<lparr>SimpleMediaItem = \<lparr>UploadToken = ''t2''\<rparr>\<rparr>]\<rparr>]"
  using CreateMediaItems_limit [of "replicate 51 ''t''" quiet_env "[]"]
    CreateMediaItems_limit [of "[''t1'', ''t2'']" quiet_env "[]"]
  by (simp add: Let_def)

text \<open>
  Claim C10. When \<open>http.NewRequest\<close> succeeds, \<open>client.Do\<close> returns a response with no error and
  \<open>ioutil.ReadAll\<close> reads its body, \<open>Upload\<close> returns the body as the token with a \<open>nil\<close> error,
  whatever the response's status code is. The example is a response with status 500.
\<close>

theorem Upload_ignores_status:
  assumes "new_request E ''POST'' uploads_url = None"
    and "client_do E (length tr) (upload_request filename r) = (resp, None)"
    and "read_all resp = (rawToken, None)"
  shows "fst (Upload E filename r tr) = (rawToken, None)"
  using assms by (simp add: Upload_def Let_def)

theorem Upload_ignores_status_witness:
  "status (fst (client_do http500_env 0 (upload_request ''x.jpg'' ''bytes''))) = 500
   \<and> fst (Upload http500_env ''x.jpg'' ''bytes'' []) = (''Internal Server Error'', None)"
  using Upload_ignores_status [of http500_env "[]" "''x.jpg''" "''bytes''"
      "\<lparr>status = 500, read_all = (''Internal Server Error'', None)\<rparr>" "''Internal Server Error''"]
  by (simp add: http500_env_def quiet_env_def)

section \<open>Claims about the batcher\<close>

lemma batcher_events:
  assumes "batcher mx E tokens [] = (r, tr')"
  shows "prefix (flushes tr') (batches mx [] tokens)
       \<and> prefix (committed tr') (flushes tr')
       \<and> (r = None \<longrightarrow> flushes tr' = batches mx [] tokens \<and> committed tr' = batches mx [] tokens)"
proof -
  from assms have "batcher_loop mx E [] tokens [] = (r, tr')" by (simp add: batcher_def)
  from batcher_loop_events [OF this] show ?thesis by auto
qed

text \<open>
  Claim C1. In a run of the batcher that returns \<open>nil\<close>, over any finite sequence of received
  tokens and for any batch limit, the batches handed to the Retry Wrapper, concatenated in flush
  order, are the received tokens; so are the batches of the remote calls that succeeded. Hence
  the committed tokens and the received ones are equal as multisets: none is lost and none is
  committed twice. An attempt that failed and was retried carries the batch of the attempt that
  follows it (the example has one).
\<close>

theorem batcher_commits_every_token_once:
  assumes "fst (batcher mx E tokens []) = None"
  shows "concat (flushes (snd (batcher mx E tokens []))) = tokens
       \<and> concat (committed (snd (batcher mx E tokens []))) = tokens
       \<and> mset (concat (committed (snd (batcher mx E tokens [])))) = mset tokens"
proof -
  obtain r tr' where b: "batcher mx E tokens [] = (r, tr')"
    by (cases "batcher mx E tokens []")
  with assms have "r = None" by simp
  with batcher_events [OF b] have "flushes tr' = batches mx [] tokens"
    "committed tr' = batches mx [] tokens" by simp_all
  with b show ?thesis by (simp add: concat_batches)
qed

theorem batcher_commits_every_token_once_witness:
  "fst (batcher 2 (flaky_env 3) [''a'', ''b'', ''c''] []) = None
   \<and> map request_tokens (remote_calls (snd (batcher 2 (flaky_env 3) [''a'', ''b'', ''c''] []))) =
       [[''a'', ''b''], [''a'', ''b''], [''c'']]
   \<and> concat (committed (snd (batcher 2 (flaky_env 3) [''a'', ''b'', ''c''] []))) =
       [''a'', ''b'', ''c'']"
proof -
  have h: "fst (batcher 2 (flaky_env 3) [''a'', ''b'', ''c''] []) = None" by code_simp
  have c: "map request_tokens (remote_calls (snd (batcher 2 (flaky_env 3) [''a'', ''b'', ''c''] []))) =
       [[''a'', ''b''], [''a'', ''b''], [''c'']]" by code_simp
  from batcher_commits_every_token_once [OF h] h c show ?thesis by simp
qed

text \<open>
  Claim C2. For a positive batch limit \<open>mx\<close> (the constant is 50), in every run of the batcher,
  successful or not: every flushed batch and every committed batch has at most \<open>mx\<close> tokens, and
  every one but the last has exactly \<open>mx\<close>. A successful run over \<open>N\<close> tokens flushes \<open>N div mx\<close>
  batches of \<open>mx\<close> tokens and then, when \<open>N mod mx\<close> is not zero, one of \<open>N mod mx\<close>; with limit 2 and
  5 tokens the sizes are 2, 2, 1 in flush order.
\<close>

theorem batch_sizes:
  assumes "0 < mx"
  shows "(\<forall>b \<in> set (flushes (snd (batcher mx E tokens []))). length b \<le> mx)
       \<and> (\<forall>b \<in> set (butlast (flushes (snd (batcher mx E tokens [])))). length b = mx)
       \<and> (\<forall>b \<in> set (committed (snd (batcher mx E tokens []))). length b \<le> mx)
       \<and> (\<forall>b \<in> set (butlast (committed (snd (batcher mx E tokens [])))). length b = mx)
       \<and> (fst (batcher mx E tokens []) = None \<longrightarrow>
            map length (flushes (snd (batcher mx E tokens []))) =
              replicate (length tokens div mx) mx @
              (if length tokens mod mx = 0 then [] else [length tokens mod mx])
            \<and> committed (snd (batcher mx E tokens [])) = flushes (snd (batcher mx E tokens [])))
       \<and> (mx = 2 \<and> length tokens = 5 \<and> fst (batcher mx E tokens []) = None \<longrightarrow>
            map length (flushes (snd (batcher mx E tokens []))) = [2, 2, 1])"
proof -
  obtain r tr' where b: "batcher mx E tokens [] = (r, tr')"
    by (cases "batcher mx E tokens []")
  from batcher_events [OF b] have
    p: "prefix (flushes tr') (batches mx [] tokens)"
    and q: "prefix (committed tr') (flushes tr')"
    and s: "r = None \<longrightarrow> flushes tr' = batches mx [] tokens \<and> committed tr' = batches mx [] tokens"
    by simp_all
  from assms have l: "length ([]::UploadToken list) < mx" by simp
  have f1: "\<forall>b \<in> set (flushes tr'). length b \<le> mx"
    using set_mono_prefix [OF p] batches_length_le [OF l] by blast
  have f2: "\<forall>b \<in> set (butlast (flushes tr')). length b = mx"
    using set_butlast_prefix [OF p] batches_butlast_full [OF l] by blast
  have c1: "\<forall>b \<in> set (committed tr'). length b \<le> mx"
    using set_mono_prefix [OF q] f1 by blast
  have c2: "\<forall>b \<in> set (butlast (committed tr')). length b = mx"
    using set_butlast_prefix [OF q] f2 by blast
  have sz: "r = None \<longrightarrow> map length (flushes tr') =
              replicate (length tokens div mx) mx @
              (if length tokens mod mx = 0 then [] else [length tokens mod mx])"
    using s batches_sizes [OF l, of tokens] by simp
  have ex: "mx = 2 \<and> length tokens = 5 \<and> r = None \<longrightarrow> map length (flushes tr') = [2, 2, 1]"
  proof (intro impI, elim conjE)
    assume a: "mx = 2" "length tokens = 5" "r = None"
    have "(5::nat) div 2 = 2" "(5::nat) mod 2 = 1" by simp_all
    with sz a show "map length (flushes tr') = [2, 2, 1]" by (simp add: numeral_2_eq_2)
  qed
  have cf: "r = None \<longrightarrow> committed tr' = flushes tr'" using s by simp
  from b have fs: "fst (batcher mx E tokens []) = r" "snd (batcher mx E tokens []) = tr'"
    by simp_all
  show ?thesis unfolding fs using f1 f2 c1 c2 sz cf ex by blast
qed

theorem batch_sizes_witness:
  "map length (flushes (snd (batcher 2 quiet_env [''a'', ''b'', ''c'', ''d'', ''e''] []))) = [2, 2, 1]
   \<and> map length (committed (snd (batcher 2 quiet_env [''a'', ''b'', ''c'', ''d'', ''e''] []))) = [2, 2, 1]
   \<and> map length (flushes (snd (batcher MaxUploadTokensPerCreateMediaItemsCall quiet_env
          [''a'', ''b'', ''c''] []))) = [3]"
proof -
  have m: "(0::nat) < 2" by simp
  have h: "(2::nat) = 2 \<and> length [''a'', ''b'', ''c'', ''d'', ''e''] = 5
       \<and> fst (batcher 2 quiet_env [''a'', ''b'', ''c'', ''d'', ''e''] []) = None" by code_simp
  have n: "0 < MaxUploadTokensPerCreateMediaItemsCall"
    by (simp add: MaxUploadTokensPerCreateMediaItemsCall_def)
  have k: "fst (batcher MaxUploadTokensPerCreateMediaItemsCall quiet_env [''a'', ''b'', ''c''] []) = None"
    by code_simp
  from batch_sizes [OF m, of quiet_env "[''a'', ''b'', ''c'', ''d'', ''e'']"] h
    batch_sizes [OF n, of quiet_env "[''a'', ''b'', ''c'']"] k
  show ?thesis by (simp add: MaxUploadTokensPerCreateMediaItemsCall_def)
qed

lemma errgroup_wait_all_nil: "errgroup_wait (replicate n None) = None"
  by (induction n) simp_all

lemma batcher_loop_ends_closed:
  assumes "batcher_loop mx E cur ts tr = (None, tr')"
    and "length cur < mx" and "(length cur + length ts) mod mx = 0"
  shows "last tr' = TokensClosed"
  using assms
proof (induction ts arbitrary: cur tr)
  case Nil
  then have "length cur = 0" by simp
  with Nil show ?case by auto
next
  case (Cons t ts)
  show ?case
  proof (cases "length (cur @ [t]) \<ge> mx")
    case False
    with Cons.prems have "batcher_loop mx E (cur @ [t]) ts (tr @ [TokenReceived t]) = (None, tr')"
      by (simp add: Let_def)
    moreover from False have "length (cur @ [t]) < mx" by simp
    moreover from Cons.prems have "(length (cur @ [t]) + length ts) mod mx = 0" by simp
    ultimately show ?thesis by (rule Cons.IH)
  next
    case True
    with Cons.prems have eq: "Suc (length cur) = mx" by simp
    obtain r1 tr1 where u: "uploadBatch mx E (cur @ [t]) (tr @ [TokenReceived t]) = (r1, tr1)"
      by (cases "uploadBatch mx E (cur @ [t]) (tr @ [TokenReceived t])")
    with Cons.prems True have "r1 = None" by (cases r1) (simp_all add: Let_def)
    with u Cons.prems True have "batcher_loop mx E [] ts tr1 = (None, tr')"
      by (simp add: Let_def)
    moreover from Cons.prems have "length ([]::UploadToken list) < mx" by simp
    moreover have "(length ([]::UploadToken list) + length ts) mod mx = 0"
    proof -
      from Cons.prems(3) have "(Suc (length cur) + length ts) mod mx = 0" by simp
      then have "(mx + length ts) mod mx = 0" unfolding eq .
      then show ?thesis by simp
    qed
    ultimately show ?thesis by (rule Cons.IH)
  qed
qed

text \<open>
  Claim C5. With no file names the path source sends nothing, closes its channel and returns
  \<open>nil\<close>; a worker that receives nothing opens no file and makes no upload call; the batcher, over
  no tokens, flushes nothing and makes no remote call; and \<open>run\<close> over tasks that all returned
  \<open>nil\<close> returns \<open>nil\<close>. In general \<open>uploadBatch\<close> of the empty batch returns \<open>nil\<close> and does nothing,
  so a batcher whose current batch is empty when the token stream closes only notes the close.
  That state is reached: a successful run over a multiple of \<open>mx\<close> tokens ends with the close as
  its last event, after \<open>N div mx\<close> flushes.
\<close>

theorem empty_input_no_calls:
  "path_source E [] [] = (None, [FilenamesClosed])
   \<and> filenames_sent (snd (path_source E [] [])) = []
   \<and> worker E [] [] = (None, [])
   \<and> opens (snd (worker E [] [])) = []
   \<and> http_calls (snd (worker E [] [])) = []
   \<and> batcher mx E [] [] = (None, [TokensClosed])
   \<and> flushes (snd (batcher mx E [] [])) = []
   \<and> remote_calls (snd (batcher mx E [] [])) = []
   \<and> run_result (None # replicate uploadConcurrency None @ [None]) = None
   \<and> uploadBatch mx E [] tr = (None, tr)
   \<and> batcher_loop mx E [] [] tr = (None, tr @ [TokensClosed])
   \<and> (0 < mx \<and> length tokens mod mx = 0 \<and> fst (batcher mx E tokens []) = None \<longrightarrow>
        last (snd (batcher mx E tokens [])) = TokensClosed
        \<and> length (flushes (snd (batcher mx E tokens []))) = length tokens div mx)"
proof -
  have w: "errgroup_wait (replicate uploadConcurrency None @ [None]) = None"
    using errgroup_wait_all_nil [of "Suc uploadConcurrency"]
    by (simp add: replicate_append_same)
  have g: "0 < mx \<and> length tokens mod mx = 0 \<and> fst (batcher mx E tokens []) = None \<longrightarrow>
        last (snd (batcher mx E tokens [])) = TokensClosed
        \<and> length (flushes (snd (batcher mx E tokens []))) = length tokens div mx"
  proof (intro impI, elim conjE)
    assume a: "0 < mx" "length tokens mod mx = 0" "fst (batcher mx E tokens []) = None"
    obtain tr' where b: "batcher mx E tokens [] = (None, tr')"
      using a(3) by (cases "batcher mx E tokens []") simp
    then have bl: "batcher_loop mx E [] tokens [] = (None, tr')" by (simp add: batcher_def)
    from a have l: "length ([]::UploadToken list) < mx"
      and m: "(length ([]::UploadToken list) + length tokens) mod mx = 0" by simp_all
    have "last tr' = TokensClosed" by (rule batcher_loop_ends_closed [OF bl l m])
    moreover from batcher_events [OF b] have "flushes tr' = batches mx [] tokens" by simp
    then have "map length (flushes tr') = replicate (length tokens div mx) mx"
      using batches_sizes [OF l, of tokens] a by simp
    then have "length (map length (flushes tr')) = length tokens div mx" by simp
    then have "length (flushes tr') = length tokens div mx" by simp
    ultimately show "last (snd (batcher mx E tokens [])) = TokensClosed
        \<and> length (flushes (snd (batcher mx E tokens []))) = length tokens div mx"
      using b by simp
  qed
  show ?thesis using w g by (simp add: batcher_def run_result_def)
qed

theorem empty_input_no_calls_witness:
  "path_source quiet_env [] [] = (None, [FilenamesClosed])
   \<and> worker quiet_env [] [] = (None, [])
   \<and> batcher MaxUploadTokensPerCreateMediaItemsCall quiet_env [] [] = (None, [TokensClosed])
   \<and> run_result (None # replicate 10 None @ [None]) = None
   \<and> last (snd (batcher 2 quiet_env [''a'', ''b'', ''c'', ''d''] [])) = TokensClosed
   \<and> length (flushes (snd (batcher 2 quiet_env [''a'', ''b'', ''c'', ''d''] []))) = 2"
proof -
  have h: "(0::nat) < 2 \<and> length [''a'', ''b'', ''c'', ''d''] mod 2 = 0
      \<and> fst (batcher 2 quiet_env [''a'', ''b'', ''c'', ''d''] []) = None" by code_simp
  from empty_input_no_calls [of quiet_env MaxUploadTokensPerCreateMediaItemsCall 10 "[]" ]
    empty_input_no_calls [of quiet_env 2 10 "[]" "[''a'', ''b'', ''c'', ''d'']"] h
  show ?thesis by simp
qed

lemma batcher_loop_below_limit:
  "length (cur @ ts) < mx \<Longrightarrow>
   batcher_loop mx E cur ts tr =
     uploadBatch mx E (cur @ ts) (tr @ map TokenReceived ts @ [TokensClosed])"
proof (induction ts arbitrary: cur tr)
  case Nil
  then show ?case by simp
next
  case (Cons t ts)
  then have "length ((cur @ [t]) @ ts) < mx" by simp
  from Cons.IH [OF this] Cons.prems show ?case by (simp add: Let_def)
qed

lemma batcher_loop_at_limit:
  "length (cur @ ts) = mx \<Longrightarrow> ts \<noteq> [] \<Longrightarrow>
   batcher_loop mx E cur ts tr =
     (case uploadBatch mx E (cur @ ts) (tr @ map TokenReceived ts) of
        (Some err, tr1) \<Rightarrow> (Some err, tr1)
      | (None, tr1) \<Rightarrow> (None, tr1 @ [TokensClosed]))"
proof (induction ts arbitrary: cur tr)
  case Nil
  then show ?case by simp
next
  case (Cons t ts)
  show ?case
  proof (cases "ts = []")
    case True
    with Cons.prems show ?thesis
      by (simp add: Let_def split: prod.splits option.splits)
  next
    case False
    from Cons.prems have l: "length ((cur @ [t]) @ ts) = mx" by simp
    from Cons.prems False have lt: "\<not> mx \<le> length (cur @ [t])" by (cases ts) auto
    have "batcher_loop mx E cur (t # ts) tr =
        batcher_loop mx E (cur @ [t]) ts (tr @ [TokenReceived t])"
      using lt by (simp add: Let_def)
    also have "\<dots> =
        (case uploadBatch mx E ((cur @ [t]) @ ts) ((tr @ [TokenReceived t]) @ map TokenReceived ts) of
           (Some err, tr1) \<Rightarrow> (Some err, tr1)
         | (None, tr1) \<Rightarrow> (None, tr1 @ [TokensClosed]))"
      by (rule Cons.IH [OF l False])
    finally show ?thesis by simp
  qed
qed

text \<open>
  Claim C6, amended. When the batcher receives \<open>N\<close> tokens with \<open>0 < N \<le> mx\<close> and the stream then
  closes, exactly one batch is handed to the Retry Wrapper and it holds all \<open>N\<close> tokens; every
  remote call of the run carries exactly these tokens, and exactly one of them succeeded when
  the batcher returns \<open>nil\<close>. For \<open>N < mx\<close> the flush follows the close of the token stream. For
  \<open>N = mx\<close> it does not: the batch is flushed inside the loop, on receipt of the last token, and
  the batcher sees the stream closed only after it.
\<close>

theorem single_batch:
  assumes "0 < length tokens" and "length tokens \<le> mx"
  shows "flushes (snd (batcher mx E tokens [])) = [tokens]
       \<and> (\<forall>req \<in> set (remote_calls (snd (batcher mx E tokens []))). request_tokens req = tokens)
       \<and> (fst (batcher mx E tokens []) = None \<longrightarrow> committed (snd (batcher mx E tokens [])) = [tokens])
       \<and> (length tokens < mx \<longrightarrow> flushes_follow_close (snd (batcher mx E tokens [])))
       \<and> (length tokens = mx \<longrightarrow> \<not> flushes_follow_close (snd (batcher mx E tokens [])))"
proof (cases "length tokens < mx")
  case True
  let ?tr = "map TokenReceived tokens @ [TokensClosed]"
  from True have b: "batcher mx E tokens [] = uploadBatch mx E tokens ?tr"
    using batcher_loop_below_limit [of "[]" tokens mx E "[]"] by (simp add: batcher_def)
  obtain r tr' where u: "uploadBatch mx E tokens ?tr = (r, tr')"
    by (cases "uploadBatch mx E tokens ?tr")
  from assms have ne: "tokens \<noteq> []" by auto
  from uploadBatch_events [OF u ne] obtain evs where
    e: "tr' = ?tr @ Flush tokens # evs" "flushes evs = []"
      "r = None \<longrightarrow> committed evs = [tokens]"
      "\<forall>req \<in> set (remote_calls evs). request_tokens req = tokens" by blast
  have 1: "flushes tr' = [tokens]" using e by simp
  have 2: "\<forall>req \<in> set (remote_calls tr'). request_tokens req = tokens" using e by simp
  have 3: "r = None \<longrightarrow> committed tr' = [tokens]" using e by simp
  have 4: "flushes_follow_close tr'" using e by simp
  from b u have fs: "fst (batcher mx E tokens []) = r" "snd (batcher mx E tokens []) = tr'"
    by simp_all
  show ?thesis unfolding fs using 1 2 3 4 True by simp
next
  case False
  with assms have eq: "length tokens = mx" by simp
  from assms have ne: "tokens \<noteq> []" by auto
  let ?tr = "map TokenReceived tokens"
  have b: "batcher mx E tokens [] =
      (case uploadBatch mx E tokens ?tr of
         (Some err, tr1) \<Rightarrow> (Some err, tr1)
       | (None, tr1) \<Rightarrow> (None, tr1 @ [TokensClosed]))"
    using batcher_loop_at_limit [of "[]" tokens mx E "[]"] eq ne by (simp add: batcher_def)
  obtain r1 tr1 where u: "uploadBatch mx E tokens ?tr = (r1, tr1)"
    by (cases "uploadBatch mx E tokens ?tr")
  from uploadBatch_events [OF u ne] obtain evs where
    e: "tr1 = ?tr @ Flush tokens # evs" "flushes evs = []"
      "r1 = None \<longrightarrow> committed evs = [tokens]"
      "\<forall>req \<in> set (remote_calls evs). request_tokens req = tokens" by blast
  obtain r tr' where bb: "batcher mx E tokens [] = (r, tr')"
    by (cases "batcher mx E tokens []")
  have t: "r = r1 \<and> (tr' = tr1 \<or> tr' = tr1 @ [TokensClosed])"
    using b u bb by (cases r1) auto
  have 1: "flushes tr' = [tokens]" using e t by auto
  have 2: "\<forall>req \<in> set (remote_calls tr'). request_tokens req = tokens" using e t by auto
  have 3: "r = None \<longrightarrow> committed tr' = [tokens]" using e t by auto
  have 4: "\<not> flushes_follow_close tr'" using e t by auto
  from bb have fs: "fst (batcher mx E tokens []) = r" "snd (batcher mx E tokens []) = tr'"
    by simp_all
  show ?thesis unfolding fs using 1 2 3 4 False by simp
qed

theorem single_batch_witness:
  "flushes (snd (batcher 3 (flaky_env 4) [''a'', ''b''] [])) = [[''a'', ''b'']]
   \<and> map request_tokens (remote_calls (snd (batcher 3 (flaky_env 4) [''a'', ''b''] []))) =
       [[''a'', ''b''], [''a'', ''b'']]
   \<and> flushes_follow_close (snd (batcher 3 (flaky_env 4) [''a'', ''b''] []))
   \<and> flushes (snd (batcher 2 quiet_env [''a'', ''b''] [])) = [[''a'', ''b'']]
   \<and> \<not> flushes_follow_close (snd (batcher 2 quiet_env [''a'', ''b''] []))"
proof -
  have h1: "0 < length [''a'', ''b'']" and h2: "length [''a'', ''b''] \<le> (3::nat)"
    and h3: "length [''a'', ''b''] \<le> (2::nat)" by simp_all
  have c: "map request_tokens (remote_calls (snd (batcher 3 (flaky_env 4) [''a'', ''b''] []))) =
       [[''a'', ''b''], [''a'', ''b'']]" by code_simp
  from single_batch [OF h1 h2, of "flaky_env 4"] single_batch [OF h1 h3, of quiet_env] c
  show ?thesis by simp
qed

text \<open>
  Claim C6 as stated fails at the boundary \<open>N = 50\<close>: the trace of the batcher over 50 tokens has
  the flush and its remote call before the close of the token stream, so the one commit does not
  happen only after the input stream is exhausted.
\<close>

theorem full_batch_flushed_before_close:
  "0 < length (replicate 50 ''t'')
   \<and> length (replicate 50 ''t'') \<le> MaxUploadTokensPerCreateMediaItemsCall
   \<and> snd (batcher MaxUploadTokensPerCreateMediaItemsCall quiet_env (replicate 50 ''t'') []) =
       map TokenReceived (replicate 50 ''t'') @
       [Flush (replicate 50 ''t''),
        BatchCreate \<lparr>NewMediaItems = append_items [] (replicate 50 ''t'')\<rparr> None,
        MessageSent (UploadedBatch 50),
        TokensClosed]
   \<and> \<not> (flushes (snd (batcher MaxUploadTokensPerCreateMediaItemsCall quiet_env
              (replicate 50 ''t'') [])) = [replicate 50 ''t'']
         \<and> flushes_follow_close (snd (batcher MaxUploadTokensPerCreateMediaItemsCall quiet_env
              (replicate 50 ''t'') [])))"
  by code_simp

section \<open>Claims about the worker pool\<close>

lemma running_after_return:
  "i < length ws \<Longrightarrow> ws ! i = Running \<Longrightarrow>
   int (length (filter (\<lambda>w. w = Running) (ws[i := Exited]))) =
     int (length (filter (\<lambda>w. w = Running) ws)) - 1"
proof (induction ws arbitrary: i)
  case Nil
  then show ?case by simp
next
  case (Cons w ws)
  then show ?case by (cases i) simp_all
qed

lemma none_running_nth:
  "filter (\<lambda>w. w = Running) ws = [] \<Longrightarrow> i < length ws \<Longrightarrow> ws ! i \<noteq> Running"
  by (auto simp: filter_empty_conv)

lemma pool_inv_init: "pool_inv n pool_init"
  by (simp add: pool_inv_def pool_init_def)

lemma pool_inv_step:
  assumes "pool_inv n s" and "pool_step n a s = Some s'"
  shows "pool_inv n s'"
proof (cases a)
  case WgAdd
  with assms show ?thesis by (auto simp: pool_inv_def split: if_splits)
next
  case GoWorker
  with assms show ?thesis by (auto simp: pool_inv_def split: if_splits)
next
  case (Send i)
  with assms show ?thesis by (auto simp: pool_inv_def none_running_nth split: if_splits)
next
  case (Return i)
  with assms have i: "i < length (workers s)" "workers s ! i = Running"
    and s': "s' = s\<lparr>workers := (workers s)[i := Exited], wg := wg s - 1\<rparr>"
    by (auto split: if_splits)
  from assms(1) i have c: "closer s = NotStarted \<or> closer s = Waiting"
    by (auto simp: pool_inv_def none_running_nth)
  from assms(1) c show ?thesis unfolding s'
    by (auto simp: pool_inv_def running_after_return [OF i])
next
  case GoCloser
  with assms show ?thesis by (auto simp: pool_inv_def split: if_splits)
next
  case WaitReturns
  with assms show ?thesis by (auto simp: pool_inv_def split: if_splits)
next
  case CloseTokens
  with assms show ?thesis by (auto simp: pool_inv_def split: if_splits)
qed

lemma pool_inv_run:
  "pool_inv n s \<Longrightarrow> pool_run n schedule s = Some s' \<Longrightarrow> pool_inv n s'"
proof (induction schedule arbitrary: s)
  case Nil
  then show ?case by simp
next
  case (Cons a schedule)
  then show ?case by (auto split: option.splits dest: pool_inv_step)
qed

text \<open>
  Claim C9. Along every interleaving of the main goroutine, the workers and the closing
  goroutine, from the start of the loop that starts the workers: no worker sends on the closed
  token stream (nothing panics); when the token stream is closed, all \<open>uploadConcurrency\<close> workers
  have been started and every one of them has returned; and the counter of the wait group is the
  number of running workers, plus one between \<open>wg.Add(1)\<close> and the \<open>g.Go\<close> that follows it. The
  second schedule of the example shows the barrier: with one worker still running,
  \<open>wg.Wait()\<close> cannot return.
\<close>

theorem tokens_closed_after_workers_exit:
  assumes "pool_run uploadConcurrency schedule pool_init = Some s"
  shows "\<not> panicked s
       \<and> (closed s \<longrightarrow>
            length (workers s) = uploadConcurrency \<and> (\<forall>w \<in> set (workers s). w = Exited))
       \<and> wg s = int (length (filter (\<lambda>w. w = Running) (workers s))) + (if added s then 1 else 0)"
proof -
  from pool_inv_run [OF pool_inv_init assms] have i: "pool_inv uploadConcurrency s" .
  then have "closed s \<longrightarrow> filter (\<lambda>w. w = Running) (workers s) = []"
    by (auto simp: pool_inv_def)
  then have "closed s \<longrightarrow> (\<forall>w \<in> set (workers s). w = Exited)"
    by (auto simp: filter_empty_conv intro: wstatus.exhaust)
  moreover from i have "closed s \<longrightarrow> length (workers s) = uploadConcurrency"
    by (auto simp: pool_inv_def)
  ultimately show ?thesis using i by (simp add: pool_inv_def)
qed

theorem tokens_closed_after_workers_exit_witness:
  "pool_run 2 [WgAdd, GoWorker, Send 0, WgAdd, GoWorker, Return 0, Send 1, GoCloser, Send 1,
               Return 1, WaitReturns, CloseTokens] pool_init =
     Some \<lparr>added = False, wg = 0, workers = [Exited, Exited], closer = Finished,
           closed = True, panicked = False\<rparr>
   \<and> pool_run 2 [WgAdd, GoWorker, WgAdd, GoWorker, Return 0, GoCloser, WaitReturns] pool_init = None"
proof -
  have r: "pool_run 2 [WgAdd, GoWorker, Send 0, WgAdd, GoWorker, Return 0, Send 1, GoCloser, Send 1,
               Return 1, WaitReturns, CloseTokens] pool_init =
     Some \<lparr>added = False, wg = 0, workers = [Exited, Exited], closer = Finished,
           closed = True, panicked = False\<rparr>" by code_simp
  have n: "pool_run 2 [WgAdd, GoWorker, WgAdd, GoWorker, Return 0, GoCloser, WaitReturns] pool_init = None"
    by code_simp
  from tokens_closed_after_workers_exit [OF r] r n show ?thesis by simp
qed

section \<open>Claims about the path source\<close>









section \<open>Lemmas: the Retry Wrapper when every attempt fails\<close>

lemma retry_do_recording:
  "\<exists>log' s'. retry_do n (recording f) (log, s) = (fst (retry_do n f s), (log @ log', s'))
      \<and> s' = snd (retry_do n f s)
      \<and> log' \<noteq> [] \<and> length log' \<le> n + 1
      \<and> last log' = fst (retry_do n f s)
      \<and> (\<forall>x \<in> set (butlast log'). x \<noteq> None)
      \<and> (fst (retry_do n f s) \<noteq> None \<longrightarrow> length log' = n + 1)"
proof (induction n arbitrary: log s)
  case 0
  obtain r s1 where f: "f s = (r, s1)" by (cases "f s")
  then have "retry_do 0 (recording f) (log, s) = (fst (retry_do 0 f s), (log @ [r], s1))
      \<and> s1 = snd (retry_do 0 f s)
      \<and> [r] \<noteq> [] \<and> length [r] \<le> 0 + 1
      \<and> last [r] = fst (retry_do 0 f s)
      \<and> (\<forall>x \<in> set (butlast [r]). x \<noteq> None)
      \<and> (fst (retry_do 0 f s) \<noteq> None \<longrightarrow> length [r] = 0 + 1)"
    by (simp add: recording_def)
  then show ?case by blast
next
  case (Suc n)
  obtain r s1 where f: "f s = (r, s1)" by (cases "f s")
  show ?case
  proof (cases r)
    case None
    with f have "retry_do (Suc n) (recording f) (log, s) = (fst (retry_do (Suc n) f s), (log @ [r], s1))
      \<and> s1 = snd (retry_do (Suc n) f s)
      \<and> [r] \<noteq> [] \<and> length [r] \<le> Suc n + 1
      \<and> last [r] = fst (retry_do (Suc n) f s)
      \<and> (\<forall>x \<in> set (butlast [r]). x \<noteq> None)
      \<and> (fst (retry_do (Suc n) f s) \<noteq> None \<longrightarrow> length [r] = Suc n + 1)"
      by (simp add: recording_def)
    then show ?thesis by blast
  next
    case (Some err)
    from Suc.IH [of "log @ [r]" s1] obtain log' s' where
      ih: "retry_do n (recording f) (log @ [r], s1) = (fst (retry_do n f s1), ((log @ [r]) @ log', s'))"
        "s' = snd (retry_do n f s1)" "log' \<noteq> []" "length log' \<le> n + 1"
        "last log' = fst (retry_do n f s1)" "\<forall>x \<in> set (butlast log'). x \<noteq> None"
        "fst (retry_do n f s1) \<noteq> None \<longrightarrow> length log' = n + 1" by blast
    from f Some have e: "retry_do (Suc n) f s = retry_do n f s1" by simp
    from f Some have e': "retry_do (Suc n) (recording f) (log, s) =
        retry_do n (recording f) (log @ [r], s1)" by (simp add: recording_def)
    have b: "set (butlast (r # log')) \<subseteq> insert r (set (butlast log'))"
      using ih(3) by auto
    from ih Some b have "retry_do (Suc n) (recording f) (log, s) =
          (fst (retry_do (Suc n) f s), (log @ (r # log'), s'))
      \<and> s' = snd (retry_do (Suc n) f s)
      \<and> r # log' \<noteq> [] \<and> length (r # log') \<le> Suc n + 1
      \<and> last (r # log') = fst (retry_do (Suc n) f s)
      \<and> (\<forall>x \<in> set (butlast (r # log')). x \<noteq> None)
      \<and> (fst (retry_do (Suc n) f s) \<noteq> None \<longrightarrow> length (r # log') = Suc n + 1)"
      unfolding e e' by auto
    then show ?thesis by blast
  qed
qed

lemma retry_do_count:
  assumes "\<And>s. fst (f s) \<noteq> None" and "\<And>s. c (snd (f s)) = Suc (c s)"
  shows "c (snd (retry_do n f s)) = c s + n + 1 \<and> fst (retry_do n f s) \<noteq> None"
proof (induction n arbitrary: s)
  case 0
  from assms show ?case by simp
next
  case (Suc n)
  obtain r s1 where f: "f s = (r, s1)" by (cases "f s")
  with assms(1) [of s] obtain err where r: "r = Some err" by (cases r) auto
  from f assms(2) [of s] have c: "c s1 = Suc (c s)" by simp
  from f r have "retry_do (Suc n) f s = retry_do n f s1" by simp
  with Suc.IH [of s1] c show ?case by simp
qed

lemma upt_Suc_shift: "map g [0..<Suc n] = g 0 # map (\<lambda>i. g (Suc i)) [0..<n]"
  by (simp only: upt_conv_Cons [of 0 "Suc n"] map_Suc_upt [symmetric]) (simp add: comp_def)

lemma upload_attempt_open_fails:
  assumes "snd (os_open E (length tr) filename) = Some e"
  shows "upload_attempt E filename (tok, tr) = (Some e, ('''', tr @ [OsOpen filename (Some e)]))"
  using assms
  by (cases "os_open E (length tr) filename") (simp add: upload_attempt_def uploadFile_def)

lemma retry_do_open_fails:
  assumes "\<forall>t. snd (os_open E t filename) = Some (err t)"
  shows "retry_do n (upload_attempt E filename) (tok, tr) =
     (Some (err (length tr + n)),
      ('''', tr @ map (\<lambda>i. OsOpen filename (Some (err (length tr + i)))) [0..<Suc n]))"
proof (induction n arbitrary: tok tr)
  case 0
  from assms have "snd (os_open E (length tr) filename) = Some (err (length tr))" by simp
  from upload_attempt_open_fails [OF this] show ?case by simp
next
  case (Suc n)
  let ?e = "OsOpen filename (Some (err (length tr)))"
  from assms have "snd (os_open E (length tr) filename) = Some (err (length tr))" by simp
  from upload_attempt_open_fails [OF this]
  have "retry_do (Suc n) (upload_attempt E filename) (tok, tr) =
      retry_do n (upload_attempt E filename) ('''', tr @ [?e])" by simp
  also have "\<dots> = (Some (err (length (tr @ [?e]) + n)),
      ('''', (tr @ [?e]) @ map (\<lambda>i. OsOpen filename (Some (err (length (tr @ [?e]) + i)))) [0..<Suc n]))"
    by (rule Suc.IH)
  also have "\<dots> = (Some (err (length tr + Suc n)),
      ('''', tr @ map (\<lambda>i. OsOpen filename (Some (err (length tr + i)))) [0..<Suc (Suc n)]))"
    by (simp add: upt_Suc_shift del: upt_Suc)
  finally show ?case .
qed

lemma CreateMediaItems_fails:
  assumes "length batch \<le> mx"
    and "batch_create E (length tr) \<lparr>NewMediaItems = append_items [] batch\<rparr> = Some e"
  shows "CreateMediaItems mx E batch tr =
     (Some e, tr @ [BatchCreate \<lparr>NewMediaItems = append_items [] batch\<rparr> (Some e)])"
  using assms by (simp add: CreateMediaItems_def Let_def)

lemma retry_do_commit_fails:
  assumes "length batch \<le> mx"
    and "\<forall>t. batch_create E t \<lparr>NewMediaItems = append_items [] batch\<rparr> = Some (err t)"
  shows "retry_do n (CreateMediaItems mx E batch) tr =
     (Some (err (length tr + n)),
      tr @ map (\<lambda>i. BatchCreate \<lparr>NewMediaItems = append_items [] batch\<rparr>
                    (Some (err (length tr + i)))) [0..<Suc n])"
proof (induction n arbitrary: tr)
  case 0
  from assms(2) have "batch_create E (length tr) \<lparr>NewMediaItems = append_items [] batch\<rparr> =
      Some (err (length tr))" by simp
  from CreateMediaItems_fails [OF assms(1) this] show ?case by simp
next
  case (Suc n)
  let ?req = "\<lparr>NewMediaItems = append_items [] batch\<rparr>"
  let ?e = "BatchCreate ?req (Some (err (length tr)))"
  from assms(2) have "batch_create E (length tr) ?req = Some (err (length tr))" by simp
  from CreateMediaItems_fails [OF assms(1) this]
  have "retry_do (Suc n) (CreateMediaItems mx E batch) tr =
      retry_do n (CreateMediaItems mx E batch) (tr @ [?e])" by simp
  also have "\<dots> = (Some (err (length (tr @ [?e]) + n)),
      (tr @ [?e]) @ map (\<lambda>i. BatchCreate ?req (Some (err (length (tr @ [?e]) + i)))) [0..<Suc n])"
    by (rule Suc.IH)
  also have "\<dots> = (Some (err (length tr + Suc n)),
      tr @ map (\<lambda>i. BatchCreate ?req (Some (err (length tr + i)))) [0..<Suc (Suc n)])"
    by (simp add: upt_Suc_shift del: upt_Suc)
  finally show ?case .
qed

lemma errgroup_wait_first:
  "errgroup_wait (replicate k None @ Some e # rs) = Some e"
  by (induction k) simp_all

section \<open>Claims about the workers\<close>

text \<open>
  Claim C3, amended. \<open>os.Open\<close> is called by \<open>uploadFile\<close>, inside the closure the worker hands to
  the Retry Wrapper, so a failure to open goes through the wrapper like any other failure of the
  upload: for a file that cannot be opened at any time the file is opened once per attempt,
  \<open>retries + 1\<close> times in all. When the attempts are exhausted the worker stops with the error
  of the last attempt annotated with the file name: it makes no upload call, sends no token and
  reads no further file name, and \<open>run\<close>, when this is the first task to fail, returns that
  error.
\<close>

theorem open_failure_goes_through_retry:
  assumes "\<forall>t. snd (os_open E t filename) = Some (err t)"
  shows "worker E (filename # received) tr =
           (Some (UploadingFile filename (err (length tr + retries E))),
            tr @ map (\<lambda>i. OsOpen filename (Some (err (length tr + i)))) [0..<Suc (retries E)])
       \<and> length (opens (snd (worker E (filename # received) tr))) =
           length (opens tr) + retries E + 1
       \<and> http_calls (snd (worker E (filename # received) tr)) = http_calls tr
       \<and> tokens_sent (snd (worker E (filename # received) tr)) = tokens_sent tr
       \<and> run_result (replicate k None @ fst (worker E (filename # received) tr) # rs) =
           Some (FailedToUploadPhotos (UploadingFile filename (err (length tr + retries E))))"
proof -
  have w: "worker E (filename # received) tr =
           (Some (UploadingFile filename (err (length tr + retries E))),
            tr @ map (\<lambda>i. OsOpen filename (Some (err (length tr + i)))) [0..<Suc (retries E)])"
    using retry_do_open_fails [OF assms, of "retries E" "''''" tr] by simp
  show ?thesis unfolding w
    by (simp add: run_result_def errgroup_wait_first del: upt_Suc)
qed

theorem open_failure_goes_through_retry_witness:
  "worker unreadable_env [''missing.jpg'', ''next.jpg''] [] =
     (Some (UploadingFile ''missing.jpg'' (Failure ''open: no such file or directory'')),
      [OsOpen ''missing.jpg'' (Some (Failure ''open: no such file or directory'')),
       OsOpen ''missing.jpg'' (Some (Failure ''open: no such file or directory'')),
       OsOpen ''missing.jpg'' (Some (Failure ''open: no such file or directory''))])
   \<and> run_result [None, fst (worker unreadable_env [''missing.jpg'', ''next.jpg''] []), Some Canceled] =
       Some (FailedToUploadPhotos
         (UploadingFile ''missing.jpg'' (Failure ''open: no such file or directory'')))"
proof -
  have h: "\<forall>t. snd (os_open unreadable_env t ''missing.jpg'') =
      Some ((\<lambda>t. Failure ''open: no such file or directory'') t)"
    by (simp add: unreadable_env_def)
  have r: "retries unreadable_env = 2" by (simp add: unreadable_env_def quiet_env_def)
  have u: "[0..<Suc 2] = [0, 1, 2]" by (simp add: upt_rec)
  from open_failure_goes_through_retry [OF h, of "[''next.jpg'']" "[]" 1 "[Some Canceled]"]
  show ?thesis unfolding r u by (auto simp del: worker.simps)
qed

text \<open>
  Claim C3 as stated fails: with a budget of two re-invocations, a file that cannot be opened is
  opened three times, so the failure to open is retried by the Retry Wrapper.
\<close>

theorem open_failure_is_retried:
  "snd (os_open unreadable_env 0 ''missing.jpg'') \<noteq> None
   \<and> opens (snd (worker unreadable_env [''missing.jpg''] [])) =
       [(''missing.jpg'', Some (Failure ''open: no such file or directory'')),
        (''missing.jpg'', Some (Failure ''open: no such file or directory'')),
        (''missing.jpg'', Some (Failure ''open: no such file or directory''))]
   \<and> \<not> length (opens (snd (worker unreadable_env [''missing.jpg''] []))) \<le> 1"
  by code_simp

section \<open>Claims about the Retry Wrapper\<close>

lemma upload_attempt_http_fails:
  assumes "\<forall>t. snd (os_open E t filename) = None"
    and "new_request E ''POST'' uploads_url = None"
    and "\<forall>t req. snd (client_do E t req) \<noteq> None"
  shows "fst (upload_attempt E filename s) \<noteq> None"
    and "length (http_calls (snd (snd (upload_attempt E filename s)))) =
         Suc (length (http_calls (snd s)))"
proof -
  obtain tok tr where s: "s = (tok, tr)" by (cases s)
  obtain f where o: "os_open E (length tr) filename = (f, None)"
    using assms(1) by (metis surjective_pairing)
  let ?tr = "tr @ [OsOpen filename None]"
  let ?req = "upload_request (path_base E filename) f"
  obtain resp err where c: "client_do E (length ?tr) ?req = (resp, Some err)"
    using assms(3) by (metis surjective_pairing not_Some_eq)
  have u: "Upload E (path_base E filename) f ?tr = (('''', Some err), ?tr @ [HttpDo ?req (Some err)])"
    using assms(2) c by (simp add: Upload_def Let_def)
  have a: "upload_attempt E filename s =
      (Some err, ('''', (?tr @ [HttpDo ?req (Some err)]) @ [FileClosed filename]))"
    using o u unfolding s upload_attempt_def uploadFile_def by simp
  show "fst (upload_attempt E filename s) \<noteq> None" unfolding a by simp
  show "length (http_calls (snd (snd (upload_attempt E filename s)))) =
         Suc (length (http_calls (snd s)))" using a unfolding s by simp
qed

text \<open>
  Claim C7. Observed through a log of the operation's results, the Retry Wrapper with a budget
  of \<open>n\<close> re-invocations invokes any operation at least once and at most \<open>n + 1\<close> times, invokes
  it again only after a failure, returns the result of the last invocation, and returns an error
  only when all \<open>n + 1\<close> invocations failed; the log changes nothing in what it returns. The same
  wrapper with the same budget stands around the commit of a batch and around the upload of a
  file: against a remote service that fails every time, \<open>uploadBatch\<close> makes \<open>retries + 1\<close> remote
  calls and returns the error of the last one; against an upload endpoint that fails every time
  a worker makes \<open>retries + 1\<close> upload calls for the file and returns an error for that file.
\<close>

theorem retry_wrapper_bounded_and_uniform:
  "(let res = retry_do n (recording f) ([], s); log = fst (snd res)
    in fst res = fst (retry_do n f s) \<and> snd (snd res) = snd (retry_do n f s)
       \<and> 1 \<le> length log \<and> length log \<le> n + 1
       \<and> last log = fst (retry_do n f s)
       \<and> (\<forall>x \<in> set (butlast log). x \<noteq> None)
       \<and> (fst (retry_do n f s) \<noteq> None \<longrightarrow> length log = n + 1))
   \<and> (batch \<noteq> [] \<and> length batch \<le> mx
        \<and> (\<forall>t. batch_create E t \<lparr>NewMediaItems = append_items [] batch\<rparr> = Some (err t)) \<longrightarrow>
        uploadBatch mx E batch tr =
          (Some (err (length tr + 1 + retries E)),
           tr @ Flush batch #
             map (\<lambda>i. BatchCreate \<lparr>NewMediaItems = append_items [] batch\<rparr>
                          (Some (err (length tr + 1 + i)))) [0..<Suc (retries E)])
        \<and> length (remote_calls (snd (uploadBatch mx E batch tr))) =
            length (remote_calls tr) + retries E + 1)
   \<and> ((\<forall>t. snd (os_open E t filename) = None) \<and> new_request E ''POST'' uploads_url = None
        \<and> (\<forall>t req. snd (client_do E t req) \<noteq> None) \<longrightarrow>
        length (http_calls (snd (worker E (filename # received) tr))) =
          length (http_calls tr) + retries E + 1
        \<and> (\<exists>e. fst (worker E (filename # received) tr) = Some (UploadingFile filename e)))"
proof (intro conjI)
  from retry_do_recording [of n f "[]" s] obtain log' s' where
    r: "retry_do n (recording f) ([], s) = (fst (retry_do n f s), ([] @ log', s'))"
      "s' = snd (retry_do n f s)" "log' \<noteq> []" "length log' \<le> n + 1"
      "last log' = fst (retry_do n f s)" "\<forall>x \<in> set (butlast log'). x \<noteq> None"
      "fst (retry_do n f s) \<noteq> None \<longrightarrow> length log' = n + 1" by blast
  from r(3) have "1 \<le> length log'" by (cases log') simp_all
  with r show "let res = retry_do n (recording f) ([], s); log = fst (snd res)
    in fst res = fst (retry_do n f s) \<and> snd (snd res) = snd (retry_do n f s)
       \<and> 1 \<le> length log \<and> length log \<le> n + 1
       \<and> last log = fst (retry_do n f s)
       \<and> (\<forall>x \<in> set (butlast log). x \<noteq> None)
       \<and> (fst (retry_do n f s) \<noteq> None \<longrightarrow> length log = n + 1)"
    by (simp add: Let_def)
next
  show "batch \<noteq> [] \<and> length batch \<le> mx
        \<and> (\<forall>t. batch_create E t \<lparr>NewMediaItems = append_items [] batch\<rparr> = Some (err t)) \<longrightarrow>
        uploadBatch mx E batch tr =
          (Some (err (length tr + 1 + retries E)),
           tr @ Flush batch #
             map (\<lambda>i. BatchCreate \<lparr>NewMediaItems = append_items [] batch\<rparr>
                          (Some (err (length tr + 1 + i)))) [0..<Suc (retries E)])
        \<and> length (remote_calls (snd (uploadBatch mx E batch tr))) =
            length (remote_calls tr) + retries E + 1"
  proof (intro impI, elim conjE)
    assume ne: "batch \<noteq> []" and le: "length batch \<le> mx"
      and f: "\<forall>t. batch_create E t \<lparr>NewMediaItems = append_items [] batch\<rparr> = Some (err t)"
    have u: "uploadBatch mx E batch tr =
          (Some (err (length tr + 1 + retries E)),
           tr @ Flush batch #
             map (\<lambda>i. BatchCreate \<lparr>NewMediaItems = append_items [] batch\<rparr>
                          (Some (err (length tr + 1 + i)))) [0..<Suc (retries E)])"
      using retry_do_commit_fails [OF le f, of "retries E" "tr @ [Flush batch]"] ne
      by (simp add: uploadBatch_def del: upt_Suc)
    show "uploadBatch mx E batch tr =
          (Some (err (length tr + 1 + retries E)),
           tr @ Flush batch #
             map (\<lambda>i. BatchCreate \<lparr>NewMediaItems = append_items [] batch\<rparr>
                          (Some (err (length tr + 1 + i)))) [0..<Suc (retries E)])
        \<and> length (remote_calls (snd (uploadBatch mx E batch tr))) =
            length (remote_calls tr) + retries E + 1"
      unfolding u by (simp del: upt_Suc)
  qed
next
  show "(\<forall>t. snd (os_open E t filename) = None) \<and> new_request E ''POST'' uploads_url = None
        \<and> (\<forall>t req. snd (client_do E t req) \<noteq> None) \<longrightarrow>
        length (http_calls (snd (worker E (filename # received) tr))) =
          length (http_calls tr) + retries E + 1
        \<and> (\<exists>e. fst (worker E (filename # received) tr) = Some (UploadingFile filename e))"
  proof (intro impI, elim conjE)
    assume a: "\<forall>t. snd (os_open E t filename) = None" "new_request E ''POST'' uploads_url = None"
      "\<forall>t req. snd (client_do E t req) \<noteq> None"
    let ?f = "upload_attempt E filename"
    let ?c = "\<lambda>s. length (http_calls (snd s))"
    have c: "?c (snd (retry_do (retries E) ?f ('''', tr))) = ?c ('''', tr) + retries E + 1
        \<and> fst (retry_do (retries E) ?f ('''', tr)) \<noteq> None"
      using retry_do_count [where f = ?f and c = ?c and n = "retries E" and s = "('''', tr)",
          OF upload_attempt_http_fails(1) [OF a] upload_attempt_http_fails(2) [OF a]]
      by simp
    obtain r tok tr1 where d: "retry_do (retries E) ?f ('''', tr) = (r, (tok, tr1))"
      by (cases "retry_do (retries E) ?f ('''', tr)") auto
    with c obtain e where e: "r = Some e" by (cases r) auto
    from d e have w: "worker E (filename # received) tr = (Some (UploadingFile filename e), tr1)"
      by simp
    from c d have "length (http_calls tr1) = length (http_calls tr) + retries E + 1" by simp
    then show "length (http_calls (snd (worker E (filename # received) tr))) =
          length (http_calls tr) + retries E + 1
        \<and> (\<exists>e. fst (worker E (filename # received) tr) = Some (UploadingFile filename e))"
      unfolding w by simp
  qed
qed

theorem retry_wrapper_bounded_and_uniform_witness:
  "fst (snd (retry_do 2 (recording (CreateMediaItems 50 remote_down_env [''a''])) ([], []))) =
     [Some (Failure ''''), Some (Failure ''x''), Some (Failure ''xx'')]
   \<and> fst (retry_do 2 (CreateMediaItems 50 remote_down_env [''a'']) []) = Some (Failure ''xx'')
   \<and> fst (uploadBatch 50 remote_down_env [''a''] []) = Some (Failure ''xxx'')
   \<and> length (remote_calls (snd (uploadBatch 50 remote_down_env [''a''] []))) = 3
   \<and> length (http_calls (snd (worker http_down_env [''x.jpg''] []))) = 3
   \<and> fst (worker http_down_env [''x.jpg''] []) =
       Some (UploadingFile ''x.jpg'' (Failure ''connection refused''))"
proof -
  have c1: "fst (snd (retry_do 2 (recording (CreateMediaItems 50 remote_down_env [''a''])) ([], []))) =
     [Some (Failure ''''), Some (Failure ''x''), Some (Failure ''xx'')]" by code_simp
  have c2: "fst (worker http_down_env [''x.jpg''] []) =
       Some (UploadingFile ''x.jpg'' (Failure ''connection refused''))" by code_simp
  have h2: "[''a''] \<noteq> [] \<and> length [''a''] \<le> (50::nat)
      \<and> (\<forall>t. batch_create remote_down_env t \<lparr>NewMediaItems = append_items [] [''a'']\<rparr> =
            Some ((\<lambda>t. Failure (replicate t CHR ''x'')) t))"
    by (simp add: remote_down_env_def)
  have h3: "(\<forall>t. snd (os_open http_down_env t ''x.jpg'') = None)
      \<and> new_request http_down_env ''POST'' uploads_url = None
      \<and> (\<forall>t req. snd (client_do http_down_env t req) \<noteq> None)"
    by (simp add: http_down_env_def quiet_env_def)
  have r2: "retries remote_down_env = 2" by (simp add: remote_down_env_def quiet_env_def)
  have r3: "retries http_down_env = 2" by (simp add: http_down_env_def quiet_env_def)
  have x: "replicate 3 CHR ''x'' = ''xxx''" "replicate 2 CHR ''x'' = ''xx''"
    by (simp_all add: numeral_3_eq_3 numeral_2_eq_2)
  note t2 = retry_wrapper_bounded_and_uniform
    [of 2 "CreateMediaItems 50 remote_down_env [''a'']" "[]" "[''a'']" 50 remote_down_env
        "\<lambda>t. Failure (replicate t CHR ''x'')" "[]"]
  note t3 = retry_wrapper_bounded_and_uniform
    [of 0 "\<lambda>s. (None, s)" "()" "[]" 0 http_down_env "\<lambda>t. Canceled" "[]" "''x.jpg''" "[]"]
  from t2 h2 c1 have a: "fst (retry_do 2 (CreateMediaItems 50 remote_down_env [''a'']) []) =
        Some (Failure ''xx'')
      \<and> fst (uploadBatch 50 remote_down_env [''a''] []) = Some (Failure ''xxx'')
      \<and> length (remote_calls (snd (uploadBatch 50 remote_down_env [''a''] []))) = 3"
    unfolding r2 by (auto simp: Let_def x simp del: upt_Suc)
  from t3 h3 have b: "length (http_calls (snd (worker http_down_env [''x.jpg''] []))) = 3"
    unfolding r3 by (auto simp del: worker.simps)
  from a b c1 c2 show ?thesis by simp
qed

end
